theory Spec2Isabelle
  imports Main "HOL-Library.Sublist"
begin

section \<open>Repository path validator (package git, validateRepoPath)\<close>

text \<open>
  Go strings are byte sequences; they are modelled as \<^typ>\<open>string\<close>, one
  \<^typ>\<open>char\<close> per byte.  The validator talks to the operating system at two
  places: \<open>os.Getwd\<close> (inside \<open>filepath.Abs\<close>) and \<open>os.Stat\<close>.  Both are
  read from an explicit environment.  \<open>os.Stat\<close> is observed by the code only
  through \<open>os.IsNotExist\<close>, so its outcome has three values.
\<close>

datatype stat_result = StatOk | StatNotExist | StatOtherError

record env =
  getwd :: "string option"
  stat :: "string \<Rightarrow> stat_result"

datatype error =
    NoRepository
  | InvalidPath
  | AccessDenied string
  | NotGitRepository string

abbreviation SEP :: char where "SEP \<equiv> CHR ''/''"
abbreviation DOT :: char where "DOT \<equiv> CHR ''.''"

subsection \<open>filepath.Clean, filepath.Join and filepath.Abs on Unix\<close>

text \<open>
  The \<open>..\<close> case of \<open>Clean\<close> moves the write index back: one step
  unconditionally, then further while the index is above \<open>dotdot\<close> and the
  byte under it is not a separator.
\<close>

fun backtrack :: "string \<Rightarrow> nat \<Rightarrow> nat \<Rightarrow> nat" where
  "backtrack out dd 0 = 0"
| "backtrack out dd (Suc k) =
     (if Suc k > dd \<and> out ! (Suc k) \<noteq> SEP then backtrack out dd k else Suc k)"

function clean_loop :: "bool \<Rightarrow> string \<Rightarrow> string \<Rightarrow> nat \<Rightarrow> string" where
  "clean_loop rooted [] out dd = out"
| "clean_loop rooted (c # rest) out dd =
     (if c = SEP then clean_loop rooted rest out dd
      else if c = DOT \<and> (rest = [] \<or> hd rest = SEP) then clean_loop rooted rest out dd
      else if c = DOT \<and> rest \<noteq> [] \<and> hd rest = DOT \<and> (tl rest = [] \<or> hd (tl rest) = SEP) then
        (if length out > dd then
           clean_loop rooted (tl rest) (take (backtrack out dd (length out - 1)) out) dd
         else if \<not> rooted then
           (let out' = (if length out > 0 then out @ [SEP] else out) @ [DOT, DOT]
            in clean_loop rooted (tl rest) out' (length out'))
         else clean_loop rooted (tl rest) out dd)
      else
        (let out' = (if (rooted \<and> length out \<noteq> 1) \<or> (\<not> rooted \<and> length out \<noteq> 0)
                     then out @ [SEP] else out)
         in clean_loop rooted (dropWhile (\<lambda>x. x \<noteq> SEP) rest)
              (out' @ c # takeWhile (\<lambda>x. x \<noteq> SEP) rest) dd))"
  by pat_completeness auto
termination
  by (relation "measure (\<lambda>(rooted, p, out, dd). length p)")
     (auto simp: less_Suc_eq_le length_dropWhile_le intro: le_trans [OF diff_le_self])

definition Clean :: "string \<Rightarrow> string" where
  "Clean path =
     (if path = [] then [DOT]
      else
        (let rooted = (hd path = SEP);
             out = (if rooted then clean_loop True (tl path) [SEP] 1
                    else clean_loop False path [] 0)
         in if out = [] then [DOT] else out))"

text \<open>\<open>filepath.Join\<close> of two elements: empty elements are ignored, the rest is
  joined by a separator and cleaned.\<close>

definition Join :: "string \<Rightarrow> string \<Rightarrow> string" where
  "Join a b =
     (if a \<noteq> [] then Clean (a @ SEP # b)
      else if b \<noteq> [] then Clean b
      else [])"

definition IsAbs :: "string \<Rightarrow> bool" where
  "IsAbs path = prefix [SEP] path"

definition Abs :: "env \<Rightarrow> string \<Rightarrow> error + string" where
  "Abs e path =
     (if IsAbs path then Inr (Clean path)
      else (case getwd e of
              None \<Rightarrow> Inl InvalidPath
            | Some wd \<Rightarrow> Inr (Join wd path)))"

subsection \<open>validateRepoPath\<close>

text \<open>The loop over \<open>allowedPaths\<close> with \<open>strings.HasPrefix\<close> and \<open>break\<close>.\<close>

fun isAllowed :: "string \<Rightarrow> string list \<Rightarrow> bool" where
  "isAllowed absPath [] = False"
| "isAllowed absPath (repoPath # rest) =
     (if prefix repoPath absPath then True else isAllowed absPath rest)"

definition validateRepoPath :: "env \<Rightarrow> string \<Rightarrow> string list \<Rightarrow> error + string" where
  "validateRepoPath e requestedPath allowedPaths =
     (if requestedPath = [] then
        (if length allowedPaths > 0 then Inr (allowedPaths ! 0)
         else Inl NoRepository)
      else
        (case Abs e requestedPath of
           Inl err \<Rightarrow> Inl InvalidPath
         | Inr absPath \<Rightarrow>
             if \<not> isAllowed absPath allowedPaths \<and> length allowedPaths > 0
             then Inl (AccessDenied absPath)
             else if stat e (Join absPath ''.git'') = StatNotExist
             then Inl (NotGitRepository absPath)
             else Inr absPath))"

text \<open>An environment in which no path exists, and one in which every path does.\<close>

definition env_empty :: env where
  "env_empty = \<lparr>getwd = Some ''/'', stat = (\<lambda>p. StatNotExist)\<rparr>"

definition env_full :: env where
  "env_full = \<lparr>getwd = Some ''/'', stat = (\<lambda>p. StatOk)\<rparr>"


section \<open>Body filter (package bodyfilter)\<close>

text \<open>
  The filter works on three regular expressions: the two default patterns and
  the blank-line pattern compiled inside FilterBody.  They are written in a
  small regular-expression language that covers what the three use: a byte
  class, its greedy repetition, and the two multi-line anchors.  Matching is
  Go's leftmost-first search: the leftmost start position wins, and at one
  position a greedy repetition prefers the longer run and gives bytes back
  only when the rest fails.

  Every literal byte of the three patterns is ASCII and every negated class
  stands under a repetition, so matching byte by byte finds the same spans as
  Go's matching rune by rune.
\<close>

abbreviation NL :: char where "NL \<equiv> CHR 0x0A"

text \<open>A byte class is a list of bytes or its complement.  An item of a
  pattern is one byte of a class, the greedy repetition of a class, or one
  of the anchors \<open>^\<close> and \<open>$\<close> in multi-line mode; a pattern is the
  concatenation of its items.\<close>

datatype cls = In "char list" | NotIn "char list"

fun cls_has :: "cls \<Rightarrow> char \<Rightarrow> bool" where
  "cls_has (In cs) c = (c \<in> set cs)"
| "cls_has (NotIn cs) c = (c \<notin> set cs)"

datatype item = One cls | Star cls | Bol | Eol

type_synonym regexp = "item list"

text \<open>\<open>match_here re prev s\<close> is the length of the match of \<open>re\<close> that starts
  at the front of \<open>s\<close>, if there is one; \<open>prev\<close> is the byte in front of
  that position (none at the start of the text).  \<open>^\<close> holds at the start of
  the text and behind a newline, \<open>$\<close> at the end of the text and in front of
  a newline.\<close>

fun match_here :: "regexp \<Rightarrow> char option \<Rightarrow> string \<Rightarrow> nat option" where
  "match_here [] prev s = Some 0"
| "match_here (Bol # is) prev s =
     (if prev = None \<or> prev = Some NL then match_here is prev s else None)"
| "match_here (Eol # is) prev s =
     (if s = [] \<or> hd s = NL then match_here is prev s else None)"
| "match_here (One c # is) prev [] = None"
| "match_here (One c # is) prev (x # xs) =
     (if cls_has c x then map_option Suc (match_here is (Some x) xs) else None)"
| "match_here (Star c # is) prev [] = match_here is prev []"
| "match_here (Star c # is) prev (x # xs) =
     (if cls_has c x then
        (case match_here (Star c # is) (Some x) xs of
           Some n \<Rightarrow> Some (Suc n)
         | None \<Rightarrow> match_here is prev (x # xs))
      else match_here is prev (x # xs))"

text \<open>\<open>ReplaceAllString\<close>: the text is scanned from the left; where a match
  of positive length starts, the replacement is written and the matched bytes
  are skipped (the counter), otherwise the byte is copied.  None of the three
  patterns matches the empty string, so Go's rule for empty matches is never
  in play.\<close>

fun replace_from :: "regexp \<Rightarrow> string \<Rightarrow> char option \<Rightarrow> nat \<Rightarrow> string \<Rightarrow> string" where
  "replace_from re repl prev skip [] = []"
| "replace_from re repl prev (Suc k) (x # xs) = replace_from re repl (Some x) k xs"
| "replace_from re repl prev 0 (x # xs) =
     (case match_here re prev (x # xs) of
        Some (Suc n) \<Rightarrow> repl @ replace_from re repl (Some x) n xs
      | _ \<Rightarrow> x # replace_from re repl (Some x) 0 xs)"

definition ReplaceAllString :: "regexp \<Rightarrow> string \<Rightarrow> string \<Rightarrow> string" where
  "ReplaceAllString re src repl = replace_from re repl None 0 src"

text \<open>A literal string, and the repetition \<open>+\<close>.\<close>

definition lit :: "string \<Rightarrow> regexp" where
  "lit s = map (\<lambda>c. One (In [c])) s"

definition plus :: "cls \<Rightarrow> regexp" where
  "plus c = [One c, Star c]"

text \<open>The compiled forms of the two \<open>defaultFilterPatterns\<close>,
  \<^verbatim>\<open>(?m)^Co-Authored-By:.*$\<close> and
  \<^verbatim>\<open>(?s)---\s*Pull Request opened by \[[^\]]+\]\([^)]+\) with guidance from [^\n]+\<close>,
  and of \<^verbatim>\<open>\n{3,}\<close>.  Without the flag \<open>s\<close> the dot is every byte but the
  newline; the second pattern has no dot, so its flag changes nothing; \<open>\s\<close>
  is tab, newline, form feed, carriage return and space; a negated class
  contains the newline unless it excludes it.\<close>

definition coauthor_re :: regexp where
  "coauthor_re = [Bol] @ lit ''Co-Authored-By:'' @ [Star (NotIn [NL]), Eol]"

definition footer_re :: regexp where
  "footer_re =
     lit ''---'' @ [Star (In [CHR 0x09, NL, CHR 0x0C, CHR 0x0D, CHR '' ''])]
     @ lit ''Pull Request opened by ['' @ plus (NotIn '']'') @ lit '']('' @ plus (NotIn '')'')
     @ lit '') with guidance from '' @ plus (NotIn [NL])"

definition multipleNewlines :: regexp where
  "multipleNewlines = lit [NL, NL, NL] @ [Star (In [NL])]"

subsection \<open>strings.TrimSpace\<close>

text \<open>\<open>strings.TrimSpace\<close> removes leading and trailing white space as
  \<open>unicode.IsSpace\<close> defines it, on the runes of the UTF-8 text.
  \<open>DecodeRune\<close> and \<open>DecodeLastRune\<close> follow \<open>utf8.DecodeRuneInString\<close>
  and \<open>utf8.DecodeLastRuneInString\<close>: a rune and its width in bytes, with
  \<open>RuneError\<close> of width 1 for a byte that starts no valid encoding.\<close>

definition RuneError :: nat where "RuneError = 0xFFFD"

definition DecodeRune :: "string \<Rightarrow> nat \<times> nat" where
  "DecodeRune s =
     (if s = [] then (RuneError, 0)
      else
        (let s0 = of_char (s ! 0) :: nat in
         if s0 < 0x80 then (s0, 1)
         else if s0 < 0xC2 \<or> 0xF4 < s0 then (RuneError, 1)
         else
           (let sz = (if s0 < 0xE0 then 2 else if s0 < 0xF0 then 3 else 4 :: nat);
                lo = (if s0 = 0xE0 then 0xA0 else if s0 = 0xF0 then 0x90 else 0x80 :: nat);
                hi = (if s0 = 0xED then 0x9F else if s0 = 0xF4 then 0x8F else 0xBF :: nat)
            in if length s < sz then (RuneError, 1)
               else
                 (let s1 = of_char (s ! 1) :: nat in
                  if s1 < lo \<or> hi < s1 then (RuneError, 1)
                  else if sz \<le> 2 then ((s0 mod 32) * 64 + s1 mod 64, 2)
                  else
                    (let s2 = of_char (s ! 2) :: nat in
                     if s2 < 0x80 \<or> 0xBF < s2 then (RuneError, 1)
                     else if sz \<le> 3 then
                       ((s0 mod 16) * 4096 + (s1 mod 64) * 64 + s2 mod 64, 3)
                     else
                       (let s3 = of_char (s ! 3) :: nat in
                        if s3 < 0x80 \<or> 0xBF < s3 then (RuneError, 1)
                        else ((s0 mod 8) * 262144 + (s1 mod 64) * 4096
                              + (s2 mod 64) * 64 + s3 mod 64, 4)))))))"

definition RuneStart :: "char \<Rightarrow> bool" where
  "RuneStart b = (\<not> (0x80 \<le> (of_char b :: nat) \<and> (of_char b :: nat) < 0xC0))"

fun scan_start :: "string \<Rightarrow> nat \<Rightarrow> nat \<Rightarrow> nat option" where
  "scan_start s 0 start = None"
| "scan_start s (Suc n) start =
     (if RuneStart (s ! start) then Some start else scan_start s n (start - 1))"

definition DecodeLastRune :: "string \<Rightarrow> nat \<times> nat" where
  "DecodeLastRune s =
     (let end = length s in
      if end = 0 then (RuneError, 0)
      else
        (let r = of_char (s ! (end - 1)) :: nat in
         if r < 0x80 then (r, 1)
         else
           (let lim = end - 4;
                start = (case scan_start s (end - 1 - lim) (end - 2) of
                           Some i \<Rightarrow> i
                         | None \<Rightarrow> lim - 1);
                d = DecodeRune (drop start s)
            in if start + snd d \<noteq> end then (RuneError, 1) else d)))"

definition IsSpace :: "nat \<Rightarrow> bool" where
  "IsSpace r =
     (if r \<le> 0xFF then r \<in> {0x09, 0x0A, 0x0B, 0x0C, 0x0D, 0x20, 0x85, 0xA0}
      else r = 0x1680 \<or> (0x2000 \<le> r \<and> r \<le> 0x200A) \<or> r = 0x2028 \<or> r = 0x2029
           \<or> r = 0x202F \<or> r = 0x205F \<or> r = 0x3000)"

lemma DecodeRune_size_pos: "s \<noteq> [] \<Longrightarrow> 0 < snd (DecodeRune s)"
  by (simp add: DecodeRune_def Let_def)

lemma scan_start_le: "scan_start s n st = Some i \<Longrightarrow> i \<le> st"
  by (induction n arbitrary: st) (fastforce split: if_splits)+

lemma DecodeLastRune_size_pos: "s \<noteq> [] \<Longrightarrow> 0 < snd (DecodeLastRune s)"
proof -
  assume ne: "s \<noteq> []"
  define start where "start = (case scan_start s (length s - 1 - (length s - 4)) (length s - 2) of
                           Some i \<Rightarrow> i | None \<Rightarrow> length s - 4 - 1)"
  have "start < length s"
    using ne scan_start_le [of s "length s - 1 - (length s - 4)" "length s - 2"]
    by (cases s) (auto simp: start_def split: option.splits)
  then have "0 < snd (DecodeRune (drop start s))"
    by (intro DecodeRune_size_pos) simp
  then show ?thesis
    using ne unfolding DecodeLastRune_def Let_def start_def [symmetric] by auto
qed

text \<open>\<open>TrimLeft\<close> drops leading white-space runes, \<open>TrimRight\<close> trailing
  ones (\<open>strings.TrimLeftFunc\<close> and \<open>strings.TrimRightFunc\<close> with
  \<open>unicode.IsSpace\<close>); \<open>TrimSpace\<close> does both.  Go's shortcut for ASCII
  bytes at either end returns the same slice.\<close>

function TrimLeft :: "string \<Rightarrow> string" where
  "TrimLeft s =
     (if s = [] then []
      else if IsSpace (fst (DecodeRune s)) then TrimLeft (drop (snd (DecodeRune s)) s)
      else s)"
  by pat_completeness auto
termination
  by (relation "measure length") (auto simp: DecodeRune_size_pos)

function TrimRight :: "string \<Rightarrow> string" where
  "TrimRight s =
     (if s = [] then []
      else if IsSpace (fst (DecodeLastRune s))
      then TrimRight (take (length s - snd (DecodeLastRune s)) s)
      else s)"
  by pat_completeness auto
termination
  by (relation "measure length") (auto simp: DecodeLastRune_size_pos)

declare TrimLeft.simps [simp del] TrimRight.simps [simp del]

definition TrimSpace :: "string \<Rightarrow> string" where
  "TrimSpace s = TrimRight (TrimLeft s)"

subsection \<open>SetFilterPatterns and FilterBody\<close>

text \<open>The package state is the slice \<open>filterPatterns\<close>; the warnings written
  by \<open>log.Printf\<close> are kept beside it.  \<open>regexp.Compile\<close> is a parameter: it
  returns an error or a compiled pattern.  SetFilterPatterns starts from an
  empty slice and appends what compiles, in order.\<close>

fun set_loop :: "(string \<Rightarrow> 'e + 'r) \<Rightarrow> string list \<Rightarrow> 'r list \<times> string list \<Rightarrow> 'r list \<times> string list" where
  "set_loop compile [] st = st"
| "set_loop compile (pattern # rest) (pats, logged) =
     (case compile pattern of
        Inl err \<Rightarrow> set_loop compile rest (pats, logged @ [pattern])
      | Inr compiled \<Rightarrow> set_loop compile rest (pats @ [compiled], logged))"

definition SetFilterPatterns ::
  "(string \<Rightarrow> 'e + 'r) \<Rightarrow> string list \<Rightarrow> 'r list \<times> string list \<Rightarrow> 'r list \<times> string list" where
  "SetFilterPatterns compile patterns st = set_loop compile patterns ([], snd st)"

text \<open>FilterBody reads \<open>filterPatterns\<close>, here its first argument.
  \<open>default_patterns\<close> is the value \<open>init\<close> gives it.\<close>

definition FilterBody :: "regexp list \<Rightarrow> string \<Rightarrow> string" where
  "FilterBody filterPatterns body =
     (if body = [] then body
      else
        (let filtered = foldl (\<lambda>f pattern. ReplaceAllString pattern f []) body filterPatterns;
             filtered = ReplaceAllString multipleNewlines filtered [NL, NL];
             filtered = TrimSpace filtered
         in filtered))"

definition default_patterns :: "regexp list" where
  "default_patterns = [coauthor_re, footer_re]"


text \<open>A text contains a span matching a pattern when the search succeeds at
  some position of it.\<close>

fun has_match :: "regexp \<Rightarrow> char option \<Rightarrow> string \<Rightarrow> bool" where
  "has_match re prev [] = (match_here re prev [] \<noteq> None)"
| "has_match re prev (x # xs) =
     (match_here re prev (x # xs) \<noteq> None \<or> has_match re (Some x) xs)"

text \<open>What SetFilterPatterns is expected to leave behind, in the words of its
  contract: the compiled forms of the patterns that compile, in input order,
  and one warning for each pattern that does not.\<close>

definition compiled :: "(string \<Rightarrow> 'e + 'r) \<Rightarrow> string list \<Rightarrow> 'r list" where
  "compiled compile patterns =
     concat (map (\<lambda>p. case compile p of Inl err \<Rightarrow> [] | Inr r \<Rightarrow> [r]) patterns)"

definition rejected :: "(string \<Rightarrow> 'e + 'r) \<Rightarrow> string list \<Rightarrow> string list" where
  "rejected compile patterns = filter (\<lambda>p. isl (compile p)) patterns"

text \<open>A compiler that rejects the unbalanced pattern \<open>(\<close> and accepts every
  other string as its own compiled form, to run SetFilterPatterns on.\<close>

definition toy_compile :: "string \<Rightarrow> unit + string" where
  "toy_compile p = (if p = ''('' then Inl () else Inr p)"

text \<open>The byte before a position, after the bytes \<open>w\<close> have been consumed.\<close>

definition after :: "char option \<Rightarrow> string \<Rightarrow> char option" where
  "after p w = (if w = [] then p else Some (last w))"

text \<open>The footer pattern up to, and without, its last literal
  \<open>) with guidance from\<close> and the attribution that follows it.\<close>

definition footer_head :: regexp where
  "footer_head =
     lit ''---'' @ [Star (In [CHR 0x09, NL, CHR 0x0C, CHR 0x0D, CHR '' ''])]
     @ lit ''Pull Request opened by ['' @ plus (NotIn '']'') @ lit '']('' @ plus (NotIn '')'')"

text \<open>The properties the filter's output is checked against: a run of three
  newlines somewhere in a text, and the six ASCII bytes that
  \<open>strings.TrimSpace\<close> treats as white space.\<close>

fun has_newline_run3 :: "string \<Rightarrow> bool" where
  "has_newline_run3 (a # b # c # rest) =
     ((a = NL \<and> b = NL \<and> c = NL) \<or> has_newline_run3 (b # c # rest))"
| "has_newline_run3 s = False"

definition ascii_space :: "char list" where
  "ascii_space = [CHR 0x09, NL, CHR 0x0B, CHR 0x0C, CHR 0x0D, CHR '' '']"

abbreviation isNL :: "char \<Rightarrow> bool" where "isNL \<equiv> (\<lambda>c. c = NL)"

text \<open>The runes of a text, as Go's \<open>range\<close> loop over a string yields them.  A
  text is white space only when every one of its runes is white space for
  \<open>unicode.IsSpace\<close>.\<close>

function runes :: "string \<Rightarrow> nat list" where
  "runes s = (if s = [] then [] else fst (DecodeRune s) # runes (drop (snd (DecodeRune s)) s))"
  by pat_completeness auto
termination
  by (relation "measure length") (auto simp: DecodeRune_size_pos)

declare runes.simps [simp del]

definition whitespace_only :: "string \<Rightarrow> bool" where
  "whitespace_only s = (\<forall>r \<in> set (runes s). IsSpace r)"

text \<open>The multi-byte branch of \<open>DecodeRune\<close> as a function of the lead byte's
  table entries, the length and the next three bytes.\<close>

definition size_of :: "nat \<Rightarrow> nat" where
  "size_of s0 = (if s0 < 0xE0 then 2 else if s0 < 0xF0 then 3 else 4)"

definition lo_of :: "nat \<Rightarrow> nat" where
  "lo_of s0 = (if s0 = 0xE0 then 0xA0 else if s0 = 0xF0 then 0x90 else 0x80)"

definition hi_of :: "nat \<Rightarrow> nat" where
  "hi_of s0 = (if s0 = 0xED then 0x9F else if s0 = 0xF4 then 0x8F else 0xBF)"

definition dec_body :: "nat \<Rightarrow> nat \<Rightarrow> nat \<Rightarrow> nat \<Rightarrow> nat \<Rightarrow> nat \<Rightarrow> nat \<Rightarrow> nat \<Rightarrow> nat \<times> nat" where
  "dec_body sz lo hi n s0 s1 s2 s3 =
     (if n < sz then (RuneError, 1)
      else if s1 < lo \<or> hi < s1 then (RuneError, 1)
      else if sz \<le> 2 then ((s0 mod 32) * 64 + s1 mod 64, 2)
      else if s2 < 0x80 \<or> 0xBF < s2 then (RuneError, 1)
      else if sz \<le> 3 then ((s0 mod 16) * 4096 + (s1 mod 64) * 64 + s2 mod 64, 3)
      else if s3 < 0x80 \<or> 0xBF < s3 then (RuneError, 1)
      else ((s0 mod 8) * 262144 + (s1 mod 64) * 4096 + (s2 mod 64) * 64 + s3 mod 64, 4))"

section \<open>Properties of the path validator\<close>

lemma isAllowed_iff: "isAllowed p allowed \<longleftrightarrow> (\<exists>r \<in> set allowed. prefix r p)"
  by (induction allowed) auto

lemma Clean_etc: "Clean ''/etc'' = ''/etc''"
  by (simp add: Clean_def)

lemma Clean_repo_other: "Clean ''/home/user/repo-other'' = ''/home/user/repo-other''"
  by (simp add: Clean_def)


lemma Join_repo_other_git:
  "Join ''/home/user/repo-other'' ''.git'' = ''/home/user/repo-other/.git''"
  by (simp add: Join_def Clean_def)


text \<open>
  Claim C3.  With a non-empty allowed list and a non-empty requested path,
  validateRepoPath fails with access denied exactly when the requested path
  resolves to an absolute path of which no allowed entry is a string prefix.
  The test is a raw prefix test: under the root \<open>/home/user/repo\<close> the sibling
  \<open>/home/user/repo-other\<close> is not denied (and is returned when its \<open>.git\<close>
  is present), while \<open>/etc\<close> under the root \<open>/repos/a\<close> is denied.
\<close>

theorem C3_access_denied_iff_no_prefix:
  "(requestedPath \<noteq> [] \<longrightarrow> allowedPaths \<noteq> [] \<longrightarrow>
      ((\<exists>x. validateRepoPath e requestedPath allowedPaths = Inl (AccessDenied x)) \<longleftrightarrow>
       (\<exists>p. Abs e requestedPath = Inr p \<and> \<not> (\<exists>r \<in> set allowedPaths. prefix r p))) \<and>
      (\<forall>x. validateRepoPath e requestedPath allowedPaths = Inl (AccessDenied x) \<longrightarrow>
           Abs e requestedPath = Inr x))
   \<and> (\<forall>x. validateRepoPath e ''/home/user/repo-other'' [''/home/user/repo''] \<noteq> Inl (AccessDenied x))
   \<and> (stat e ''/home/user/repo-other/.git'' \<noteq> StatNotExist \<longrightarrow>
        validateRepoPath e ''/home/user/repo-other'' [''/home/user/repo''] = Inr ''/home/user/repo-other'')
   \<and> validateRepoPath e ''/etc'' [''/repos/a''] = Inl (AccessDenied ''/etc'')"
proof (intro conjI impI)
  assume ne: "requestedPath \<noteq> []" "allowedPaths \<noteq> []"
  show "(\<exists>x. validateRepoPath e requestedPath allowedPaths = Inl (AccessDenied x)) \<longleftrightarrow>
        (\<exists>p. Abs e requestedPath = Inr p \<and> \<not> (\<exists>r \<in> set allowedPaths. prefix r p))"
    using ne by (auto simp: validateRepoPath_def isAllowed_iff split: sum.splits if_splits)
  show "\<forall>x. validateRepoPath e requestedPath allowedPaths = Inl (AccessDenied x) \<longrightarrow>
           Abs e requestedPath = Inr x"
    using ne by (auto simp: validateRepoPath_def split: sum.splits if_splits)
next
  show "\<forall>x. validateRepoPath e ''/home/user/repo-other'' [''/home/user/repo''] \<noteq> Inl (AccessDenied x)"
    by (simp add: validateRepoPath_def Abs_def IsAbs_def Clean_repo_other)
next
  assume "stat e ''/home/user/repo-other/.git'' \<noteq> StatNotExist"
  then show "validateRepoPath e ''/home/user/repo-other'' [''/home/user/repo''] = Inr ''/home/user/repo-other''"
    by (simp add: validateRepoPath_def Abs_def IsAbs_def Clean_repo_other Join_repo_other_git)
next
  show "validateRepoPath e ''/etc'' [''/repos/a''] = Inl (AccessDenied ''/etc'')"
    by (simp add: validateRepoPath_def Abs_def IsAbs_def Clean_etc)
qed

theorem C3_witness:
  "validateRepoPath env_full ''/etc'' [''/repos/a''] = Inl (AccessDenied ''/etc'')
   \<and> Abs env_full ''/etc'' = Inr ''/etc''
   \<and> \<not> prefix ''/repos/a'' ''/etc''
   \<and> validateRepoPath env_full ''/home/user/repo-other'' [''/home/user/repo'']
       = Inr ''/home/user/repo-other''"
  using C3_access_denied_iff_no_prefix [of "''/etc''" "[''/repos/a'']" env_full]
  by (simp add: env_full_def Abs_def IsAbs_def Clean_etc)



text \<open>
  Claim C5.  With an empty requested path, validateRepoPath fails exactly when
  the allowed list is empty, and then with the no-repository error; with a
  non-empty allowed list it returns the first entry.
\<close>

theorem C5_empty_request_default:
  "(isl (validateRepoPath e [] allowedPaths) \<longleftrightarrow> allowedPaths = [])
   \<and> (allowedPaths = [] \<longrightarrow> validateRepoPath e [] allowedPaths = Inl NoRepository)
   \<and> (allowedPaths \<noteq> [] \<longrightarrow> validateRepoPath e [] allowedPaths = Inr (hd allowedPaths))"
  by (cases allowedPaths) (simp_all add: validateRepoPath_def)

theorem C5_witness:
  "validateRepoPath env_full [] [] = Inl NoRepository
   \<and> validateRepoPath env_full [] [''/repos/a'', ''/repos/b''] = Inr ''/repos/a''"
  using C5_empty_request_default [of env_full "[]"]
        C5_empty_request_default [of env_full "[''/repos/a'', ''/repos/b'']"]
  by simp

text \<open>
  Claim C10.  With an empty requested path and a non-empty allowed list the
  first allowed entry is returned whatever the environment says: neither the
  containment check nor the \<open>.git\<close> check runs, so the access-denied and
  not-a-git-repository errors cannot occur, even where no \<open>.git\<close> exists.
\<close>

theorem C10_default_branch_skips_checks:
  "allowedPaths \<noteq> [] \<Longrightarrow>
     validateRepoPath e [] allowedPaths = Inr (allowedPaths ! 0)
     \<and> (\<forall>x. validateRepoPath e [] allowedPaths \<noteq> Inl (AccessDenied x))
     \<and> (\<forall>x. validateRepoPath e [] allowedPaths \<noteq> Inl (NotGitRepository x))
     \<and> validateRepoPath e [] allowedPaths = validateRepoPath e' [] allowedPaths"
  by (simp add: validateRepoPath_def)

theorem C10_witness:
  "stat env_empty (Join ''/tmp/plain'' ''.git'') = StatNotExist
   \<and> validateRepoPath env_empty [] [''/tmp/plain''] = Inr ''/tmp/plain''"
  using C10_default_branch_skips_checks [of "[''/tmp/plain'']" env_empty env_full]
  by (simp add: env_empty_def)


section \<open>Properties of the body filter\<close>

subsection \<open>SetFilterPatterns\<close>

lemma set_loop_acc:
  "set_loop compile patterns (pats, logged) =
     (pats @ compiled compile patterns, logged @ rejected compile patterns)"
  by (induction patterns arbitrary: pats logged)
     (auto simp: compiled_def rejected_def split: sum.splits)

text \<open>
  Claim C7.  SetFilterPatterns has no error result.  For every list of pattern
  strings and every previous rule set, the new rule set is exactly the
  compiled forms of the patterns that compile, in input order; a pattern that
  does not compile is logged and skipped, the patterns after it are still
  processed, and nothing of the previous rule set remains.
\<close>

theorem C7_set_filter_patterns_skips_bad:
  "fst (SetFilterPatterns compile patterns st) = compiled compile patterns
   \<and> snd (SetFilterPatterns compile patterns st) = snd st @ rejected compile patterns
   \<and> length (compiled compile patterns) + length (rejected compile patterns) = length patterns"
  by (induction patterns)
     (auto simp: SetFilterPatterns_def set_loop_acc compiled_def rejected_def split: sum.splits)

theorem C7_witness:
  "SetFilterPatterns toy_compile [''a'', ''('', ''b''] ([''old''], []) = ([''a'', ''b''], [''(''])"
  using C7_set_filter_patterns_skips_bad [of toy_compile "[''a'', ''('', ''b'']" "([''old''], [])"]
  by (simp add: compiled_def rejected_def toy_compile_def prod_eq_iff)

subsection \<open>FilterBody on literal inputs\<close>

text \<open>
  Claim C1 (idempotence) fails on the code.  A co-author trailer that stands
  at the start of the text behind one space is not at the start of a line, so
  the first call keeps it; TrimSpace then removes the space, and the second
  call finds the trailer at the start of the text and removes it.
\<close>

theorem C1_second_pass_differs:
  "FilterBody default_patterns '' Co-Authored-By: Jane <j@x.com>'' = ''Co-Authored-By: Jane <j@x.com>''
   \<and> FilterBody default_patterns (FilterBody default_patterns '' Co-Authored-By: Jane <j@x.com>'') = []"
  by code_simp

text \<open>
  Claim C2 (the output holds no span matching a default pattern) fails on the
  code.  After a leading tab is trimmed the output starts with a co-author
  trailer; and removing a footer that follows three more dashes and is
  followed by a second attribution line leaves a footer behind.
\<close>

theorem C2_output_still_matches:
  "has_match coauthor_re None
     (FilterBody default_patterns ([CHR 0x09] @ ''Co-Authored-By: Bob <bob@x.com>''))
   \<and> has_match footer_re None
     (FilterBody default_patterns
        (''------'' @ [NL] @ ''Pull Request opened by [a](b) with guidance from c''
         @ [NL] @ ''Pull Request opened by [a](b) with guidance from c''))"
  by code_simp

subsection \<open>The matcher on literals and greedy repetitions\<close>

lemma after_Nil [simp]: "after p [] = p"
  by (simp add: after_def)

lemma after_Cons [simp]: "after p (x # w) = after (Some x) w"
  by (simp add: after_def)

lemma lit_Nil [simp]: "lit [] = []"
  by (simp add: lit_def)

lemma lit_Cons [simp]: "lit (x # w) = One (In [x]) # lit w"
  by (simp add: lit_def)

lemma match_lit: 
  "match_here (lit w @ r) p (w @ s) = map_option ((+) (length w)) (match_here r (after p w) s)"
proof (induction w arbitrary: p)
  case Nil
  show ?case by (simp add: option.map_ident)
next
  case (Cons x w)
  show ?case by (simp add: Cons.IH option.map_comp comp_def)
qed

lemma match_lit_fail: "\<not> prefix w s \<Longrightarrow> match_here (lit w @ r) p s = None"
proof (induction w arbitrary: p s)
  case Nil
  then show ?case by simp
next
  case (Cons x w)
  then show ?case by (cases s) auto
qed

lemma match_lit_iff:
  "match_here (lit w @ r) p s =
     (if prefix w s then map_option ((+) (length w)) (match_here r (after p w) (drop (length w) s))
      else None)"
proof (cases "prefix w s")
  case True
  then obtain t where "s = w @ t" by (auto simp: prefix_def)
  then show ?thesis using match_lit [of w r p t] by simp
next
  case False
  then show ?thesis by (simp add: match_lit_fail)
qed

lemma match_star_greedy:
  assumes stop: "\<And>q x t. cls_has c x \<Longrightarrow> match_here r q (x # t) = None"
  shows "match_here (Star c # r) p s =
           map_option ((+) (length (takeWhile (cls_has c) s)))
             (match_here r (after p (takeWhile (cls_has c) s)) (dropWhile (cls_has c) s))"
proof (induction s arbitrary: p)
  case Nil
  show ?case by (simp add: option.map_ident)
next
  case (Cons x xs)
  show ?case
  proof (cases "cls_has c x")
    case True
    then show ?thesis
      using stop [of x p xs]
      by (simp add: Cons.IH option.map_comp comp_def split: option.splits)
  next
    case False
    then show ?thesis by (simp add: option.map_ident)
  qed
qed

lemma match_star_last: "match_here [Star c] p s = Some (length (takeWhile (cls_has c) s))"
  by (induction s arbitrary: p) auto

lemma match_le_length: "match_here r p s = Some n \<Longrightarrow> n \<le> length s"
  by (induction r p s arbitrary: n rule: match_here.induct)
     (auto split: if_splits option.splits)

lemma match_append_split:
  "match_here (r1 @ r2) p s = Some n \<Longrightarrow>
     \<exists>k m q. k \<le> length s \<and> match_here r2 q (drop k s) = Some m \<and> n = k + m"
proof (induction r1 arbitrary: p s n)
  case Nil
  then show ?case by (intro exI [of _ 0] exI [of _ n] exI [of _ p]) simp
next
  case (Cons i r1)
  show ?case
  proof (cases i)
    case Bol
    then show ?thesis using Cons.prems Cons.IH by (auto split: if_splits)
  next
    case Eol
    then show ?thesis using Cons.prems Cons.IH by (auto split: if_splits)
  next
    case (One c)
    show ?thesis
    proof (cases s)
      case Nil
      then show ?thesis using Cons.prems One by simp
    next
      case (Cons x xs)
      with Cons.prems One obtain n' where
        n': "match_here (r1 @ r2) (Some x) xs = Some n'" "n = Suc n'"
        by (auto split: if_splits)
      from Cons.IH [OF n'(1)] obtain k m q where
        "k \<le> length xs" "match_here r2 q (drop k xs) = Some m" "n' = k + m" by blast
      then show ?thesis using n'(2) Cons
        by (intro exI [of _ "Suc k"] exI [of _ m] exI [of _ q]) simp
    qed
  next
    case (Star c)
    have "match_here (Star c # r1 @ r2) p s = Some n \<Longrightarrow>
            \<exists>k m q. k \<le> length s \<and> match_here r2 q (drop k s) = Some m \<and> n = k + m"
    proof (induction s arbitrary: p n)
      case Nil
      then show ?case using Cons.IH [of p "[]" n] by simp
    next
      case (Cons x xs)
      show ?case
      proof (cases "cls_has c x \<and> match_here (Star c # r1 @ r2) (Some x) xs \<noteq> None")
        case True
        then obtain n' where
          n': "match_here (Star c # r1 @ r2) (Some x) xs = Some n'" by auto
        with True Cons.prems have "n = Suc n'" by simp
        moreover from Cons.IH [OF n'] obtain k m q where
          "k \<le> length xs" "match_here r2 q (drop k xs) = Some m" "n' = k + m" by blast
        ultimately show ?thesis
          by (intro exI [of _ "Suc k"] exI [of _ m] exI [of _ q]) simp
      next
        case False
        with Cons.prems have "match_here (r1 @ r2) p (x # xs) = Some n"
          by (auto split: if_splits option.splits)
        then show ?thesis by (rule \<open>\<And>p s n. match_here (r1 @ r2) p s = Some n \<Longrightarrow> _\<close>)
      qed
    qed
    then show ?thesis using Cons.prems Star by simp
  qed
qed

lemma replace_skip:
  "replace_from re repl p k s = replace_from re repl (after p (take k s)) 0 (drop k s)"
proof (induction s arbitrary: p k)
  case Nil
  show ?case by simp
next
  case (Cons x xs)
  show ?case by (cases k) (simp_all add: Cons.IH)
qed

subsection \<open>The promotional-footer pattern\<close>

lemma footer_re_split:
  "footer_re = footer_head @ (lit '') with guidance from '' @ plus (NotIn [NL]))"
  by (simp add: footer_re_def footer_head_def)

lemma match_plus_last:
  "match_here (plus c) q t = Some m \<Longrightarrow>
     t \<noteq> [] \<and> cls_has c (hd t) \<and> m = Suc (length (takeWhile (cls_has c) (tl t)))"
  by (cases t) (auto simp: plus_def match_star_last split: if_splits)

lemma footer_tail:
  assumes "match_here (lit D @ plus (NotIn [NL])) q t = Some m"
  shows "\<exists>attr. attr \<noteq> [] \<and> NL \<notin> set attr \<and> take m t = D @ attr
           \<and> (drop m t = [] \<or> hd (drop m t) = NL)"
proof -
  let ?P = "cls_has (NotIn [NL])"
  have pre: "prefix D t"
    using assms match_lit_fail [of D t "plus (NotIn [NL])" q] by (cases "prefix D t") simp_all
  then have "map_option ((+) (length D))
               (match_here (plus (NotIn [NL])) (after q D) (drop (length D) t)) = Some m"
    using assms by (simp only: match_lit_iff if_True)
  then obtain m' where
        m': "match_here (plus (NotIn [NL])) (after q D) (drop (length D) t) = Some m'"
    and m: "m = length D + m'"
    by (cases "match_here (plus (NotIn [NL])) (after q D) (drop (length D) t)") auto
  from pre obtain u where t: "t = D @ u" by (auto simp: prefix_def)
  from match_plus_last [OF m'] have u: "u \<noteq> []" "?P (hd u)"
    and len: "m' = Suc (length (takeWhile ?P (tl u)))"
    by (simp_all add: t)
  then obtain z v where zv: "u = z # v" by (cases u) auto
  let ?a = "z # takeWhile ?P v"
  have "take m t = D @ ?a"
    using len by (simp add: t zv m takeWhile_eq_take [symmetric])
  moreover have "NL \<notin> set ?a"
    using u(2) by (auto simp: zv dest: set_takeWhileD)
  moreover have d: "drop m t = dropWhile ?P v"
    using len by (simp add: t zv m dropWhile_eq_drop [symmetric])
  have "drop m t = [] \<or> hd (drop m t) = NL"
    using hd_dropWhile [of ?P v] unfolding d by auto
  ultimately show ?thesis by blast
qed

lemma footer_match_end:
  assumes "match_here footer_re p s = Some n"
  shows "n \<le> length s \<and> (drop n s = [] \<or> hd (drop n s) = NL)
         \<and> (\<exists>pre attr. take n s = pre @ '') with guidance from '' @ attr
                \<and> attr \<noteq> [] \<and> NL \<notin> set attr)"
proof -
  from assms obtain k m q where k: "k \<le> length s"
    and tl: "match_here (lit '') with guidance from '' @ plus (NotIn [NL])) q (drop k s) = Some m"
    and n: "n = k + m"
    unfolding footer_re_split by (blast dest: match_append_split)
  from footer_tail [OF tl] obtain attr where a: "attr \<noteq> []" "NL \<notin> set attr"
    "take m (drop k s) = '') with guidance from '' @ attr"
    "drop m (drop k s) = [] \<or> hd (drop m (drop k s)) = NL" by blast
  have "take n s = take k s @ '') with guidance from '' @ attr"
    using a(3) by (simp add: n take_add)
  moreover have "drop n s = drop m (drop k s)"
    by (simp add: n add.commute)
  ultimately show ?thesis
    using a match_le_length [OF assms] by metis
qed

lemma takeWhile_stop:
  "\<forall>x \<in> set xs. P x \<Longrightarrow> ys = [] \<or> \<not> P (hd ys) \<Longrightarrow> takeWhile P (xs @ ys) = xs"
  by (induction xs) (auto simp: takeWhile_eq_Nil_iff)

lemma dropWhile_stop:
  "\<forall>x \<in> set xs. P x \<Longrightarrow> ys = [] \<or> \<not> P (hd ys) \<Longrightarrow> dropWhile P (xs @ ys) = ys"
  by (induction xs) (auto simp: dropWhile_eq_self_iff)

lemma match_plus_stop:
  assumes stop: "\<And>q x t. cls_has c x \<Longrightarrow> match_here r q (x # t) = None"
    and xs: "xs \<noteq> []" "\<forall>x \<in> set xs. cls_has c x" and ys: "ys = [] \<or> \<not> cls_has c (hd ys)"
  shows "match_here (plus c @ r) p (xs @ ys)
           = map_option ((+) (length xs)) (match_here r (Some (last xs)) ys)"
proof -
  from xs obtain x xs' where x: "xs = x # xs'" by (cases xs) auto
  have tw: "takeWhile (cls_has c) (xs' @ ys) = xs'"
    using takeWhile_stop [of xs' "cls_has c" ys] xs(2) ys by (simp add: x)
  have dw: "dropWhile (cls_has c) (xs' @ ys) = ys"
    using dropWhile_stop [of xs' "cls_has c" ys] xs(2) ys by (simp add: x)
  have "match_here (Star c # r) (Some x) (xs' @ ys)
          = map_option ((+) (length xs')) (match_here r (after (Some x) xs') ys)"
    by (simp only: match_star_greedy [of c r, OF stop] tw dw)
  moreover have "after (Some x) xs' = Some (last xs)"
    by (simp add: x after_def)
  ultimately have "match_here (Star c # r) (Some x) (xs' @ ys)
          = map_option ((+) (length xs')) (match_here r (Some (last xs)) ys)"
    by simp
  moreover have "cls_has c x"
    using xs(2) by (simp add: x)
  ultimately show ?thesis
    by (cases "match_here r (Some (last xs)) ys") (simp_all add: x plus_def)
qed

lemma match_plus_end:
  assumes xs: "xs \<noteq> []" "\<forall>x \<in> set xs. cls_has c x" and ys: "ys = [] \<or> \<not> cls_has c (hd ys)"
  shows "match_here (plus c) p (xs @ ys) = Some (length xs)"
proof -
  from xs obtain x xs' where x: "xs = x # xs'" by (cases xs) auto
  have tw: "takeWhile (cls_has c) (xs' @ ys) = xs'"
    using takeWhile_stop [of xs' "cls_has c" ys] xs(2) ys by (simp add: x)
  show ?thesis
    using xs(2) by (simp add: x plus_def match_star_last tw)
qed

lemma match_footer_shape:
  assumes B: "B \<noteq> []" "\<not> cls_has ws (hd B)"
    and C: "C \<noteq> []" "\<not> cls_has c1 (hd C)"
    and D: "D \<noteq> []" "\<not> cls_has c2 (hd D)"
    and gap: "\<forall>x \<in> set gap. cls_has ws x"
    and name: "name \<noteq> []" "\<forall>x \<in> set name. cls_has c1 x"
    and url: "url \<noteq> []" "\<forall>x \<in> set url. cls_has c2 x"
    and attr: "attr \<noteq> []" "\<forall>x \<in> set attr. cls_has c3 x"
    and rest: "rest = [] \<or> \<not> cls_has c3 (hd rest)"
  shows "match_here (lit A @ Star ws # lit B @ plus c1 @ lit C @ plus c2 @ lit D @ plus c3) p
           (A @ gap @ B @ name @ C @ url @ D @ attr @ rest)
         = Some (length (A @ gap @ B @ name @ C @ url @ D @ attr))"
proof -
  let ?r4 = "plus c3"
  let ?r3 = "lit D @ ?r4"
  let ?r2 = "lit C @ plus c2 @ ?r3"
  let ?r1 = "lit B @ plus c1 @ ?r2"
  have lit_stop: "match_here (lit w @ r) q (x # t) = None" if "w \<noteq> []" "x \<noteq> hd w" for w r q x t
    using that by (cases w) auto
  have s4: "match_here ?r4 q (attr @ rest) = Some (length attr)" for q
    using match_plus_end [of attr c3 rest q] attr rest by simp
  have s3: "match_here ?r3 q (D @ attr @ rest) = Some (length D + length attr)" for q
    by (simp only: match_lit s4 option.map)
  have "match_here (plus c2 @ ?r3) q (url @ D @ attr @ rest)
          = Some (length url + (length D + length attr))" for q
  proof -
    have "match_here ?r3 q' (x # t) = None" if "cls_has c2 x" for q' x t
      using that D by (intro lit_stop) auto
    from match_plus_stop [of c2 ?r3 url "D @ attr @ rest" q, OF this] url D
    show ?thesis by (simp add: s3)
  qed
  then have s2: "match_here ?r2 q (C @ url @ D @ attr @ rest)
          = Some (length C + (length url + (length D + length attr)))" for q
    by (simp only: match_lit option.map)
  have "match_here (plus c1 @ ?r2) q (name @ C @ url @ D @ attr @ rest)
          = Some (length name + (length C + (length url + (length D + length attr))))" for q
  proof -
    have "match_here ?r2 q' (x # t) = None" if "cls_has c1 x" for q' x t
      using that C by (intro lit_stop) auto
    from match_plus_stop [of c1 ?r2 name "C @ url @ D @ attr @ rest" q, OF this] name C
    show ?thesis by (simp add: s2)
  qed
  then have s1: "match_here ?r1 q (B @ name @ C @ url @ D @ attr @ rest)
          = Some (length B + (length name + (length C + (length url + (length D + length attr)))))" for q
    by (simp only: match_lit option.map)
  have stop: "match_here ?r1 q (x # t) = None" if "cls_has ws x" for q x t
    using that B by (intro lit_stop) auto
  have tw: "takeWhile (cls_has ws) (gap @ B @ name @ C @ url @ D @ attr @ rest) = gap"
    using takeWhile_stop [of gap "cls_has ws" "B @ name @ C @ url @ D @ attr @ rest"] gap B
    by simp
  have dw: "dropWhile (cls_has ws) (gap @ B @ name @ C @ url @ D @ attr @ rest)
              = B @ name @ C @ url @ D @ attr @ rest"
    using dropWhile_stop [of gap "cls_has ws" "B @ name @ C @ url @ D @ attr @ rest"] gap B
    by simp
  have s0: "match_here (Star ws # ?r1) q (gap @ B @ name @ C @ url @ D @ attr @ rest)
              = Some (length gap + (length B + (length name + (length C + (length url + (length D + length attr))))))" for q
    by (simp only: match_star_greedy [of ws ?r1, OF stop] tw dw s1 option.map)
  show ?thesis
    by (simp only: match_lit s0 option.map length_append)
qed

lemma footer_match_line_break:
  assumes gap: "set gap \<subseteq> {CHR 0x09, NL, CHR 0x0C, CHR 0x0D, CHR '' ''}"
    and name: "name \<noteq> []" "CHR '']'' \<notin> set name"
    and url: "url \<noteq> []" "CHR '')'' \<notin> set url"
    and attr: "attr \<noteq> []" "NL \<notin> set attr"
    and rest: "rest = [] \<or> hd rest = NL"
  shows "match_here footer_re p
           (''---'' @ gap @ ''Pull Request opened by ['' @ name @ '']('' @ url
            @ '') with guidance from '' @ attr @ rest)
         = Some (length (''---'' @ gap @ ''Pull Request opened by ['' @ name @ '']('' @ url
            @ '') with guidance from '' @ attr))"
proof -
  have re: "footer_re = lit ''---'' @ Star (In [CHR 0x09, NL, CHR 0x0C, CHR 0x0D, CHR '' ''])
              # lit ''Pull Request opened by ['' @ plus (NotIn '']'') @ lit '']('' @ plus (NotIn '')'')
              @ lit '') with guidance from '' @ plus (NotIn [NL])"
    by (simp only: footer_re_def append_Cons append_Nil)
  show ?thesis
    unfolding re
    by (rule match_footer_shape) (use assms in auto)
qed

text \<open>
  Claim C6.  The promotional-footer pattern matches a footer whose \<open>---\<close>
  marker and \<open>Pull Request opened by\<close> text are separated by a line break
  (by any run of the white space \<open>\s\<close> admits), and takes the attribution
  up to the end of its line.  Every match of the pattern ends with
  \<open>) with guidance from\<close> and a non-empty attribution without a newline,
  and stops at the end of the text or in front of a newline: it never reaches
  into what follows the attribution line.  On the literal input of the
  repository's test FilterBody returns \<open>Quick fix\<close>.
\<close>

theorem C6_footer_rule_stops_at_line_end:
  "(set gap \<subseteq> {CHR 0x09, NL, CHR 0x0C, CHR 0x0D, CHR '' ''} \<longrightarrow>
    name \<noteq> [] \<longrightarrow> CHR '']'' \<notin> set name \<longrightarrow> url \<noteq> [] \<longrightarrow> CHR '')'' \<notin> set url \<longrightarrow>
    attr \<noteq> [] \<longrightarrow> NL \<notin> set attr \<longrightarrow> (rest = [] \<or> hd rest = NL) \<longrightarrow>
      match_here footer_re p
        (''---'' @ gap @ ''Pull Request opened by ['' @ name @ '']('' @ url
         @ '') with guidance from '' @ attr @ rest)
      = Some (length (''---'' @ gap @ ''Pull Request opened by ['' @ name @ '']('' @ url
         @ '') with guidance from '' @ attr)))
   \<and> (match_here footer_re q s = Some n \<longrightarrow>
        n \<le> length s \<and> (drop n s = [] \<or> hd (drop n s) = NL)
        \<and> (\<exists>pre a. take n s = pre @ '') with guidance from '' @ a \<and> a \<noteq> [] \<and> NL \<notin> set a))
   \<and> FilterBody default_patterns
        (''Quick fix'' @ [NL, NL] @ ''---'' @ [NL]
         @ ''Pull Request opened by [X](http://x.com) with guidance from Y'')
      = ''Quick fix''"
proof (intro conjI impI)
  assume "set gap \<subseteq> {CHR 0x09, NL, CHR 0x0C, CHR 0x0D, CHR '' ''}"
    "name \<noteq> []" "CHR '']'' \<notin> set name" "url \<noteq> []" "CHR '')'' \<notin> set url"
    "attr \<noteq> []" "NL \<notin> set attr" "rest = [] \<or> hd rest = NL"
  then show "match_here footer_re p
        (''---'' @ gap @ ''Pull Request opened by ['' @ name @ '']('' @ url
         @ '') with guidance from '' @ attr @ rest)
      = Some (length (''---'' @ gap @ ''Pull Request opened by ['' @ name @ '']('' @ url
         @ '') with guidance from '' @ attr))"
    by (rule footer_match_line_break)
next
  assume m: "match_here footer_re q s = Some n"
  from footer_match_end [OF m] show "n \<le> length s" by simp
  from footer_match_end [OF m] show "drop n s = [] \<or> hd (drop n s) = NL" by simp
  from footer_match_end [OF m]
  show "\<exists>pre a. take n s = pre @ '') with guidance from '' @ a \<and> a \<noteq> [] \<and> NL \<notin> set a"
    by simp
next
  show "FilterBody default_patterns
        (''Quick fix'' @ [NL, NL] @ ''---'' @ [NL]
         @ ''Pull Request opened by [X](http://x.com) with guidance from Y'')
      = ''Quick fix''"
    by code_simp
qed

theorem C6_witness:
  "match_here footer_re None
     (''---'' @ [NL] @ ''Pull Request opened by [X](http://x.com) with guidance from Y''
      @ [NL] @ ''Unrelated text'')
   = Some 65
   \<and> drop 65 (''---'' @ [NL] @ ''Pull Request opened by [X](http://x.com) with guidance from Y''
      @ [NL] @ ''Unrelated text'') = [NL] @ ''Unrelated text''"
  using C6_footer_rule_stops_at_line_end
          [where gap = "[NL]" and name = "''X''" and url = "''http://x.com''" and attr = "''Y''"
             and rest = "[NL] @ ''Unrelated text''" and p = None and q = None
             and s = "''---'' @ [NL] @ ''Pull Request opened by [X](http://x.com) with guidance from Y''
                        @ [NL] @ ''Unrelated text''"
             and n = 65]
  by simp


subsection \<open>Runs of newlines, and what TrimSpace leaves at the ends\<close>

lemma cls_has_NL: "cls_has (In [NL]) = isNL"
  by (auto simp: fun_eq_iff)

lemma has3_iff: "has_newline_run3 s \<longleftrightarrow> (\<exists>u v. s = u @ [NL, NL, NL] @ v)"
proof (induction s rule: has_newline_run3.induct)
  case (1 a b c rest)
  show ?case
  proof
    assume "has_newline_run3 (a # b # c # rest)"
    then consider "a = NL \<and> b = NL \<and> c = NL" | "has_newline_run3 (b # c # rest)" by auto
    then show "\<exists>u v. a # b # c # rest = u @ [NL, NL, NL] @ v"
    proof cases
      case 1
      then show ?thesis by (intro exI [of _ "[]"] exI [of _ rest]) simp
    next
      case 2
      with 1 obtain u v where "b # c # rest = u @ [NL, NL, NL] @ v" by blast
      then show ?thesis by (intro exI [of _ "a # u"] exI [of _ v]) simp
    qed
  next
    assume "\<exists>u v. a # b # c # rest = u @ [NL, NL, NL] @ v"
    then obtain u v where uv: "a # b # c # rest = u @ [NL, NL, NL] @ v" by blast
    show "has_newline_run3 (a # b # c # rest)"
    proof (cases u)
      case Nil
      with uv show ?thesis by simp
    next
      case (Cons x u')
      with uv have "b # c # rest = u' @ [NL, NL, NL] @ v" by simp
      with 1 have "has_newline_run3 (b # c # rest)" by blast
      then show ?thesis by simp
    qed
  qed
qed (auto simp: append_eq_Cons_conv)

lemma has3_drop: "has_newline_run3 (drop k s) \<Longrightarrow> has_newline_run3 s"
proof -
  assume "has_newline_run3 (drop k s)"
  then obtain u v where "drop k s = u @ [NL, NL, NL] @ v" by (auto simp: has3_iff)
  then have "s = (take k s @ u) @ [NL, NL, NL] @ v"
    using append_take_drop_id [of k s] by simp
  then show ?thesis unfolding has3_iff by blast
qed

lemma has3_take: "has_newline_run3 (take k s) \<Longrightarrow> has_newline_run3 s"
proof -
  assume "has_newline_run3 (take k s)"
  then obtain u v where "take k s = u @ [NL, NL, NL] @ v" by (auto simp: has3_iff)
  then have "s = u @ [NL, NL, NL] @ (v @ drop k s)"
    using append_take_drop_id [of k s] by simp
  then show ?thesis unfolding has3_iff by blast
qed

lemma has3_Cons:
  "has_newline_run3 (x # t) \<longleftrightarrow> (x = NL \<and> 2 \<le> length (takeWhile isNL t)) \<or> has_newline_run3 t"
proof (cases t)
  case Nil
  then show ?thesis by simp
next
  case (Cons b t')
  then show ?thesis by (cases t') auto
qed

lemma TrimLeft_drop: "\<exists>k. TrimLeft s = drop k s"
proof (induction s rule: TrimLeft.induct)
  case (1 s)
  show ?case
  proof (cases "s \<noteq> [] \<and> IsSpace (fst (DecodeRune s))")
    case True
    with 1 obtain k where "TrimLeft (drop (snd (DecodeRune s)) s) = drop k (drop (snd (DecodeRune s)) s)"
      by blast
    with True show ?thesis by (subst TrimLeft.simps) (auto simp del: drop_drop intro: exI [of _ "k + snd (DecodeRune s)"] simp: drop_drop)
  next
    case False
    then show ?thesis by (subst TrimLeft.simps) (auto intro: exI [of _ 0])
  qed
qed

lemma TrimRight_take: "\<exists>k. TrimRight s = take k s"
proof (induction s rule: TrimRight.induct)
  case (1 s)
  show ?case
  proof (cases "s \<noteq> [] \<and> IsSpace (fst (DecodeLastRune s))")
    case True
    with 1 obtain k where
      "TrimRight (take (length s - snd (DecodeLastRune s)) s) = take k (take (length s - snd (DecodeLastRune s)) s)"
      by blast
    with True show ?thesis
      by (subst TrimRight.simps) (auto simp: take_take intro: exI [of _ "min k (length s - snd (DecodeLastRune s))"])
  next
    case False
    then show ?thesis by (subst TrimRight.simps) (auto intro: exI [of _ "length s"])
  qed
qed

lemma TrimLeft_leading: "TrimLeft s = [] \<or> \<not> IsSpace (fst (DecodeRune (TrimLeft s)))"
proof (induction s rule: TrimLeft.induct)
  case (1 s)
  then show ?case by (subst (1 2) TrimLeft.simps) auto
qed

lemma TrimRight_trailing: "TrimRight s = [] \<or> \<not> IsSpace (fst (DecodeLastRune (TrimRight s)))"
proof (induction s rule: TrimRight.induct)
  case (1 s)
  then show ?case by (subst (1 2) TrimRight.simps) auto
qed

lemma not_IsSpace_RuneError: "\<not> IsSpace RuneError"
  by (simp add: IsSpace_def RuneError_def)

lemma DecodeRune_ascii:
  "s \<noteq> [] \<Longrightarrow> (of_char (s ! 0) :: nat) < 0x80 \<Longrightarrow> DecodeRune s = (of_char (s ! 0), 1)"
  by (simp add: DecodeRune_def)

lemma DecodeRune_invalid:
  "s \<noteq> [] \<Longrightarrow> \<not> (of_char (s ! 0) :: nat) < 0x80 \<Longrightarrow>
     (of_char (s ! 0) :: nat) < 0xC2 \<or> 0xF4 < (of_char (s ! 0) :: nat) \<Longrightarrow>
     DecodeRune s = (RuneError, 1)"
  by (simp add: DecodeRune_def)

lemma DecodeRune_multi:
  "s \<noteq> [] \<Longrightarrow> \<not> (of_char (s ! 0) :: nat) < 0x80 \<Longrightarrow>
     \<not> ((of_char (s ! 0) :: nat) < 0xC2 \<or> 0xF4 < (of_char (s ! 0) :: nat)) \<Longrightarrow>
     DecodeRune s = dec_body (size_of (of_char (s ! 0))) (lo_of (of_char (s ! 0)))
                      (hi_of (of_char (s ! 0))) (length s) (of_char (s ! 0))
                      (of_char (s ! 1)) (of_char (s ! 2)) (of_char (s ! 3))"
  unfolding DecodeRune_def dec_body_def size_of_def [symmetric] lo_of_def [symmetric]
    hi_of_def [symmetric] Let_def
  by (simp only: if_False if_True not_False_eq_True simp_thms)


lemma size_of_bounds: "2 \<le> size_of s0 \<and> size_of s0 \<le> 4"
  by (simp add: size_of_def)

lemma lo_of_ge: "0x80 \<le> lo_of s0"
  by (simp add: lo_of_def)

lemma dec_body_short:
  "1 \<le> n' \<Longrightarrow> n' \<le> n \<Longrightarrow> (1 < n' \<longrightarrow> s1' = s1) \<Longrightarrow> (2 < n' \<longrightarrow> s2' = s2) \<Longrightarrow>
   (3 < n' \<longrightarrow> s3' = s3) \<Longrightarrow> 2 \<le> sz \<Longrightarrow>
     fst (dec_body sz lo hi n' s0 s1' s2' s3') = fst (dec_body sz lo hi n s0 s1 s2 s3)
     \<or> fst (dec_body sz lo hi n' s0 s1' s2' s3') = RuneError"
  by (cases "n' < sz"; cases "sz \<le> 2"; cases "sz \<le> 3") (simp_all add: dec_body_def)

lemma dec_body_cong:
  "sz \<le> n \<Longrightarrow> sz \<le> n' \<Longrightarrow> 2 \<le> sz \<Longrightarrow> s1' = s1 \<Longrightarrow> (2 < sz \<longrightarrow> s2' = s2) \<Longrightarrow>
   (3 < sz \<longrightarrow> s3' = s3) \<Longrightarrow>
     dec_body sz lo hi n' s0 s1' s2' s3' = dec_body sz lo hi n s0 s1 s2 s3"
  by (cases "sz \<le> 2"; cases "sz \<le> 3") (simp_all add: dec_body_def)

lemma dec_body_multi:
  "2 \<le> snd (dec_body sz lo hi n s0 s1 s2 s3) \<Longrightarrow> 2 \<le> sz \<Longrightarrow> sz \<le> 4 \<Longrightarrow> 0x80 \<le> lo \<Longrightarrow>
     snd (dec_body sz lo hi n s0 s1 s2 s3) = sz \<and> sz \<le> n \<and> 0x80 \<le> s1
     \<and> (2 < sz \<longrightarrow> 0x80 \<le> s2) \<and> (3 < sz \<longrightarrow> 0x80 \<le> s3)"
  by (auto simp: dec_body_def split: if_splits)

lemma dec_body_size: "snd (dec_body sz lo hi n s0 s1 s2 s3) = 1 \<Longrightarrow>
     fst (dec_body sz lo hi n s0 s1 s2 s3) = RuneError"
  by (auto simp: dec_body_def split: if_splits)

lemma DecodeRune_take:
  assumes "take k s \<noteq> []"
  shows "fst (DecodeRune (take k s)) = fst (DecodeRune s) \<or> fst (DecodeRune (take k s)) = RuneError"
proof -
  from assms have k: "0 < k" and s: "s \<noteq> []" by auto
  then have hd: "take k s ! 0 = s ! 0" by simp
  let ?s0 = "of_char (s ! 0) :: nat"
  consider "?s0 < 0x80" | "\<not> ?s0 < 0x80" "?s0 < 0xC2 \<or> 0xF4 < ?s0"
    | "\<not> ?s0 < 0x80" "\<not> (?s0 < 0xC2 \<or> 0xF4 < ?s0)" by blast
  then show ?thesis
  proof cases
    case 1
    then show ?thesis using assms s by (simp add: DecodeRune_ascii hd)
  next
    case 2
    then show ?thesis using assms s by (simp add: DecodeRune_invalid hd)
  next
    case 3
    have a: "DecodeRune s = dec_body (size_of ?s0) (lo_of ?s0) (hi_of ?s0) (length s) ?s0
               (of_char (s ! 1)) (of_char (s ! 2)) (of_char (s ! 3))"
      using DecodeRune_multi [OF s 3] .
    have b: "DecodeRune (take k s) = dec_body (size_of ?s0) (lo_of ?s0) (hi_of ?s0)
               (length (take k s)) ?s0
               (of_char (take k s ! 1)) (of_char (take k s ! 2)) (of_char (take k s ! 3))"
      using DecodeRune_multi [OF assms] 3 unfolding hd by simp
    show ?thesis
      unfolding a b
      using k s size_of_bounds [of ?s0]
      by (intro dec_body_short) (auto simp: Suc_le_eq)
  qed
qed

lemma DecodeRune_space_cases:
  assumes s: "s \<noteq> []" and sp: "IsSpace (fst (DecodeRune s))"
  shows "(snd (DecodeRune s) = 1 \<and> (of_char (s ! 0) :: nat) < 0x80
            \<and> fst (DecodeRune s) = of_char (s ! 0))
         \<or> (2 \<le> snd (DecodeRune s) \<and> snd (DecodeRune s) \<le> length s
            \<and> (\<forall>i < snd (DecodeRune s). 0x80 \<le> (of_char (s ! i) :: nat))
            \<and> (\<forall>t. DecodeRune (take (snd (DecodeRune s)) s @ t) = DecodeRune s))"
proof -
  let ?s0 = "of_char (s ! 0) :: nat"
  consider "?s0 < 0x80" | "\<not> ?s0 < 0x80" "?s0 < 0xC2 \<or> 0xF4 < ?s0"
    | "\<not> ?s0 < 0x80" "\<not> (?s0 < 0xC2 \<or> 0xF4 < ?s0)" by blast
  then show ?thesis
  proof cases
    case 1
    then show ?thesis using s by (simp add: DecodeRune_ascii)
  next
    case 2
    then show ?thesis using s sp not_IsSpace_RuneError by (simp add: DecodeRune_invalid)
  next
    case 3
    let ?sz = "size_of ?s0"
    have a: "DecodeRune s = dec_body ?sz (lo_of ?s0) (hi_of ?s0) (length s) ?s0
               (of_char (s ! 1)) (of_char (s ! 2)) (of_char (s ! 3))"
      using DecodeRune_multi [OF s 3] .
    have "snd (DecodeRune s) \<noteq> 1"
      using sp not_IsSpace_RuneError dec_body_size unfolding a by metis
    moreover have "0 < snd (DecodeRune s)" using DecodeRune_size_pos [OF s] .
    ultimately have two: "2 \<le> snd (DecodeRune s)" by simp
    from dec_body_multi [OF two [unfolded a] _ _ lo_of_ge] size_of_bounds [of ?s0]
    have m: "snd (DecodeRune s) = ?sz" "?sz \<le> length s" "0x80 \<le> (of_char (s ! 1) :: nat)"
      "2 < ?sz \<longrightarrow> 0x80 \<le> (of_char (s ! 2) :: nat)"
      "3 < ?sz \<longrightarrow> 0x80 \<le> (of_char (s ! 3) :: nat)"
      unfolding a by simp_all
    have bytes: "\<forall>i < ?sz. 0x80 \<le> (of_char (s ! i) :: nat)"
    proof (intro allI impI)
      fix i assume "i < ?sz"
      with size_of_bounds [of ?s0] consider "i = 0" | "i = 1" | "i = 2" "2 < ?sz" | "i = 3" "3 < ?sz"
        by (cases i; cases "i - 1"; cases "i - 2"; cases "i - 3") auto
      then show "0x80 \<le> (of_char (s ! i) :: nat)"
        using 3 m by cases auto
    qed
    have stable: "DecodeRune (take ?sz s @ t) = DecodeRune s" for t
    proof -
      let ?u = "take ?sz s @ t"
      have u: "?u \<noteq> []" using s size_of_bounds [of ?s0] by simp
      have nth: "i < ?sz \<Longrightarrow> ?u ! i = s ! i" for i
        using m(2) by (simp add: nth_append)
      have u0: "?u ! 0 = s ! 0" using size_of_bounds [of ?s0] by (intro nth) simp
      have b: "DecodeRune ?u = dec_body ?sz (lo_of ?s0) (hi_of ?s0) (length ?u) ?s0
               (of_char (?u ! 1)) (of_char (?u ! 2)) (of_char (?u ! 3))"
        using DecodeRune_multi [OF u] 3 unfolding u0 by simp
      show ?thesis
        unfolding a b using m(2) size_of_bounds [of ?s0]
        by (intro dec_body_cong) (auto simp: nth)
    qed
    show ?thesis
      using two m(1,2) bytes stable by simp
  qed
qed

lemma ascii_space_IsSpace: "c \<in> set ascii_space \<Longrightarrow> (of_char c :: nat) < 0x80 \<and> IsSpace (of_char c)"
  by (auto simp: ascii_space_def IsSpace_def)

lemma ascii_space_leading:
  assumes "s \<noteq> []" "hd s \<in> set ascii_space"
  shows "IsSpace (fst (DecodeRune s))"
  using assms ascii_space_IsSpace [of "hd s"] DecodeRune_ascii [of s]
  by (simp add: hd_conv_nth)

lemma DecodeLastRune_ascii:
  "s \<noteq> [] \<Longrightarrow> (of_char (last s) :: nat) < 0x80 \<Longrightarrow> DecodeLastRune s = (of_char (last s), 1)"
  by (simp add: DecodeLastRune_def Let_def last_conv_nth)

lemma ascii_space_trailing:
  assumes "s \<noteq> []" "last s \<in> set ascii_space"
  shows "IsSpace (fst (DecodeLastRune s))"
  using assms ascii_space_IsSpace [of "last s"] DecodeLastRune_ascii [of s]
  by simp

lemma TrimRight_keeps_leading:
  assumes "s = [] \<or> \<not> IsSpace (fst (DecodeRune s))"
  shows "TrimRight s = [] \<or> \<not> IsSpace (fst (DecodeRune (TrimRight s)))"
proof -
  obtain k where k: "TrimRight s = take k s" using TrimRight_take by blast
  show ?thesis
  proof (cases "take k s = []")
    case True
    then show ?thesis by (simp add: k)
  next
    case False
    then have "s \<noteq> []" by auto
    with assms have "\<not> IsSpace (fst (DecodeRune s))" by simp
    with DecodeRune_take [OF False] not_IsSpace_RuneError show ?thesis
      by (auto simp: k)
  qed
qed

lemma TrimSpace_ends:
  "TrimSpace s = [] \<or>
     (\<not> IsSpace (fst (DecodeRune (TrimSpace s))) \<and> \<not> IsSpace (fst (DecodeLastRune (TrimSpace s))))"
  using TrimRight_keeps_leading [OF TrimLeft_leading [of s]] TrimRight_trailing [of "TrimLeft s"]
  by (auto simp: TrimSpace_def)

lemma TrimSpace_has3: "has_newline_run3 (TrimSpace s) \<Longrightarrow> has_newline_run3 s"
proof -
  obtain k where k: "TrimLeft s = drop k s" using TrimLeft_drop by blast
  obtain j where j: "TrimRight (TrimLeft s) = take j (TrimLeft s)" using TrimRight_take by blast
  assume "has_newline_run3 (TrimSpace s)"
  then have "has_newline_run3 (take j (TrimLeft s))" unfolding TrimSpace_def j .
  then have "has_newline_run3 (TrimLeft s)" by (rule has3_take)
  then have "has_newline_run3 (drop k s)" unfolding k .
  then show ?thesis by (rule has3_drop)
qed

lemma match_newlines:
  "match_here multipleNewlines p s =
     (if prefix [NL, NL, NL] s then Some (3 + length (takeWhile isNL (drop 3 s))) else None)"
  by (simp only: multipleNewlines_def match_lit_iff match_star_last cls_has_NL)
     (simp add: numeral_3_eq_3)

lemma collapse_prev:
  "replace_from multipleNewlines repl p k s = replace_from multipleNewlines repl None k s"
  by (cases s; cases k) (simp_all only: replace_from.simps match_newlines)

lemma collapse_step_nomatch:
  assumes "\<not> prefix [NL, NL, NL] (x # xs)"
  shows "replace_from multipleNewlines repl p 0 (x # xs)
           = x # replace_from multipleNewlines repl None 0 xs"
proof -
  have "match_here multipleNewlines p (x # xs) = None"
    unfolding match_newlines using assms by (rule if_not_P)
  then show ?thesis
    using collapse_prev [of repl "Some x" 0 xs] by simp
qed

lemma collapse_step_match:
  assumes "prefix [NL, NL, NL] s"
  shows "replace_from multipleNewlines repl p 0 s
           = repl @ replace_from multipleNewlines repl None 0 (dropWhile isNL s)"
proof -
  from assms obtain t where s: "s = NL # NL # NL # t" by (auto simp: prefix_def)
  let ?k = "length (takeWhile isNL t)"
  have "match_here multipleNewlines p s = Some (Suc (Suc (Suc ?k)))"
    unfolding match_newlines using assms by (simp add: s)
  then have "replace_from multipleNewlines repl p 0 s
          = repl @ replace_from multipleNewlines repl (Some NL) ?k t"
    by (simp add: s)
  also have "replace_from multipleNewlines repl (Some NL) ?k t
          = replace_from multipleNewlines repl (after (Some NL) (take ?k t)) 0 (drop ?k t)"
    by (rule replace_skip)
  also have "\<dots> = replace_from multipleNewlines repl None 0 (drop ?k t)"
    by (rule collapse_prev)
  also have "drop ?k t = dropWhile isNL s"
    by (simp add: s dropWhile_eq_drop [symmetric])
  finally show ?thesis .
qed

lemma lead2_prefix:
  assumes l: "2 \<le> length (takeWhile isNL xs)"
  shows "prefix [NL, NL] xs"
proof (cases xs)
  case Nil
  with l show ?thesis by simp
next
  case (Cons a ys)
  show ?thesis
  proof (cases ys)
    case Nil
    with l Cons show ?thesis by (simp split: if_splits)
  next
    case (Cons b zs)
    with l \<open>xs = a # ys\<close> show ?thesis by (simp split: if_splits)
  qed
qed

lemma collapse_inv:
  "length (takeWhile isNL (replace_from multipleNewlines [NL, NL] None 0 s))
     = min 2 (length (takeWhile isNL s))
   \<and> \<not> has_newline_run3 (replace_from multipleNewlines [NL, NL] None 0 s)"
proof (induction s rule: length_induct)
  case (1 s)
  let ?c = "replace_from multipleNewlines [NL, NL] None 0"
  show ?case
  proof (cases s)
    case Nil
    then show ?thesis by simp
  next
    case (Cons x xs)
    show ?thesis
    proof (cases "prefix [NL, NL, NL] s")
      case True
      let ?d = "dropWhile isNL s"
      have c: "?c s = NL # NL # ?c ?d"
        using collapse_step_match [OF True, of "[NL, NL]" None] by simp
      from True obtain t where t: "s = NL # NL # NL # t" by (auto simp: prefix_def)
      have "length ?d < length s"
        using length_dropWhile_le [of isNL t] by (simp add: t)
      with 1 have ih: "length (takeWhile isNL (?c ?d)) = min 2 (length (takeWhile isNL ?d))"
        "\<not> has_newline_run3 (?c ?d)" by auto
      have d0: "takeWhile isNL ?d = []"
        using hd_dropWhile [of isNL s] by (auto simp: takeWhile_eq_Nil_iff)
      have lead: "3 \<le> length (takeWhile isNL s)" by (simp add: t)
      from ih d0 have z: "takeWhile isNL (?c ?d) = []" by simp
      show ?thesis
        using ih(2) lead z by (simp add: c has3_Cons)
    next
      case False
      then have c: "?c (x # xs) = x # ?c xs"
        unfolding Cons by (rule collapse_step_nomatch)
      from 1 Cons have ih: "length (takeWhile isNL (?c xs)) = min 2 (length (takeWhile isNL xs))"
        "\<not> has_newline_run3 (?c xs)" by auto
      show ?thesis
      proof (cases "x = NL")
        case xn: True
        have "length (takeWhile isNL xs) \<le> 1"
        proof (rule ccontr)
          assume "\<not> length (takeWhile isNL xs) \<le> 1"
          then have "2 \<le> length (takeWhile isNL xs)" by simp
          then have "prefix [NL, NL] xs"
            by (rule lead2_prefix)
          with False show False by (auto simp: Cons xn prefix_def)
        qed
        then show ?thesis unfolding Cons c using ih xn by (simp add: has3_Cons)
      next
        case xn: False
        then show ?thesis unfolding Cons c using ih by (simp add: has3_Cons)
      qed
    qed
  qed
qed

lemma FilterBody_no_run3: "\<not> has_newline_run3 (FilterBody ps x)"
proof (cases "x = []")
  case True
  then show ?thesis by (simp add: FilterBody_def)
next
  case False
  then show ?thesis
    using collapse_inv TrimSpace_has3
    by (auto simp: FilterBody_def Let_def ReplaceAllString_def)
qed

lemma FilterBody_ends:
  "FilterBody ps x = [] \<or>
     (\<not> IsSpace (fst (DecodeRune (FilterBody ps x)))
      \<and> \<not> IsSpace (fst (DecodeLastRune (FilterBody ps x))))"
proof (cases "x = []")
  case True
  then show ?thesis by (simp add: FilterBody_def)
next
  case False
  then show ?thesis
    using TrimSpace_ends by (simp add: FilterBody_def Let_def)
qed

subsection \<open>White space only\<close>

lemma whitespace_only_Nil: "whitespace_only []"
  by (simp add: whitespace_only_def runes.simps)

lemma whitespace_only_step:
  "s \<noteq> [] \<Longrightarrow> whitespace_only s \<longleftrightarrow>
     IsSpace (fst (DecodeRune s)) \<and> whitespace_only (drop (snd (DecodeRune s)) s)"
  by (subst whitespace_only_def, subst runes.simps) (simp add: whitespace_only_def)

lemma ascii_space_chars:
  assumes "(of_char c :: nat) < 0x80" "IsSpace (of_char c)"
  shows "c \<in> set ascii_space"
proof -
  from assms have "(of_char c :: nat) \<in> {0x09, 0x0A, 0x0B, 0x0C, 0x0D, 0x20}"
    by (auto simp: IsSpace_def split: if_splits)
  then have "(of_char c :: nat) \<in> of_char ` set ascii_space"
    by (simp add: ascii_space_def)
  then obtain x where x: "(of_char c :: nat) = of_char x" "x \<in> set ascii_space" by auto
  from x(1) have "char_of (of_char c :: nat) = char_of (of_char x :: nat)" by simp
  then have "c = x" by simp
  with x(2) show ?thesis by simp
qed

lemma TrimLeft_ascii_space:
  assumes "c \<in> set ascii_space"
  shows "TrimLeft (c # y) = TrimLeft y"
proof -
  from ascii_space_IsSpace [OF assms]
  have "DecodeRune (c # y) = (of_char c, 1)" "IsSpace (of_char c)"
    using DecodeRune_ascii [of "c # y"] by simp_all
  then show ?thesis by (subst TrimLeft.simps) simp
qed

lemma whitespace_only_Cons_ascii:
  assumes "c \<in> set ascii_space"
  shows "whitespace_only (c # y) \<longleftrightarrow> whitespace_only y"
proof -
  from ascii_space_IsSpace [OF assms]
  have "DecodeRune (c # y) = (of_char c, 1)" "IsSpace (of_char c)"
    using DecodeRune_ascii [of "c # y"] by simp_all
  then show ?thesis by (simp add: whitespace_only_step)
qed

lemma NL_ascii_space: "NL \<in> set ascii_space"
  by (simp add: ascii_space_def)

lemma whitespace_only_dropWhile_NL:
  "whitespace_only s \<Longrightarrow> whitespace_only (dropWhile isNL s)"
  by (induction s) (auto simp: whitespace_only_Cons_ascii [OF NL_ascii_space])

lemma collapse_nonNL_prefix:
  "NL \<notin> set u \<Longrightarrow>
     replace_from multipleNewlines repl None 0 (u @ v) = u @ replace_from multipleNewlines repl None 0 v"
proof (induction u)
  case Nil
  show ?case by simp
next
  case (Cons a u)
  then have "\<not> prefix [NL, NL, NL] (a # u @ v)" by auto
  from collapse_step_nomatch [OF this] Cons show ?case by simp
qed

lemma collapse_whitespace_only:
  "whitespace_only s \<Longrightarrow> TrimLeft (replace_from multipleNewlines [NL, NL] None 0 s) = []"
proof (induction s rule: length_induct)
  case (1 s)
  let ?c = "replace_from multipleNewlines [NL, NL] None 0"
  show ?case
  proof (cases "s = []")
    case True
    then show ?thesis by (simp add: TrimLeft.simps)
  next
    case False
    let ?w = "snd (DecodeRune s)"
    from False "1.prems" have sp: "IsSpace (fst (DecodeRune s))"
      and rest: "whitespace_only (drop ?w s)"
      by (simp_all add: whitespace_only_step)
    from DecodeRune_space_cases [OF False sp]
    consider (ascii) "?w = 1" "(of_char (s ! 0) :: nat) < 0x80" "fst (DecodeRune s) = of_char (s ! 0)"
      | (multi) "2 \<le> ?w" "?w \<le> length s" "\<forall>i < ?w. 0x80 \<le> (of_char (s ! i) :: nat)"
          "\<forall>t. DecodeRune (take ?w s @ t) = DecodeRune s"
      by blast
    then show ?thesis
    proof cases
      case ascii
      from False obtain b xs where bx: "s = b # xs" by (cases s) auto
      from ascii sp have b: "b \<in> set ascii_space"
        by (intro ascii_space_chars) (simp_all add: bx)
      from rest ascii have wxs: "whitespace_only xs" by (simp add: bx)
      show ?thesis
      proof (cases "prefix [NL, NL, NL] s")
        case True
        let ?d = "dropWhile isNL s"
        have c: "?c s = NL # NL # ?c ?d"
          using collapse_step_match [OF True, of "[NL, NL]" None] by simp
        from True obtain t where t: "s = NL # NL # NL # t" by (auto simp: prefix_def)
        have "length ?d < length s"
          using length_dropWhile_le [of isNL t] by (simp add: t)
        moreover have "whitespace_only ?d"
          using "1.prems" by (rule whitespace_only_dropWhile_NL)
        ultimately have "TrimLeft (?c ?d) = []" using 1 by blast
        then show ?thesis
          unfolding c by (simp add: TrimLeft_ascii_space [OF NL_ascii_space])
      next
        case False
        then have c: "?c (b # xs) = b # ?c xs"
          unfolding bx by (rule collapse_step_nomatch)
        have "TrimLeft (?c xs) = []" using 1 wxs by (simp add: bx)
        then show ?thesis
          unfolding bx c by (simp add: TrimLeft_ascii_space [OF b])
      qed
    next
      case multi
      have "NL \<notin> set (take ?w s)"
      proof
        assume "NL \<in> set (take ?w s)"
        then obtain i where "i < length (take ?w s)" "take ?w s ! i = NL"
          by (auto simp: in_set_conv_nth)
        then have "i < ?w" "s ! i = NL" by simp_all
        with multi(3) show False by auto
      qed
      from collapse_nonNL_prefix [OF this, of "[NL, NL]" "drop ?w s"]
      have c: "?c s = take ?w s @ ?c (drop ?w s)" by simp
      have "length (drop ?w s) < length s" using multi(1) False by simp
      with 1 rest have ih: "TrimLeft (?c (drop ?w s)) = []" by blast
      have d: "DecodeRune (take ?w s @ ?c (drop ?w s)) = DecodeRune s"
        using multi(4) by blast
      have ne: "take ?w s @ ?c (drop ?w s) \<noteq> []" using False multi(1) by simp
      show ?thesis
        unfolding c
        by (subst TrimLeft.simps) (simp only: d ne sp if_False if_True, simp add: multi(2) ih)
    qed
  qed
qed

lemma whitespace_only_bytes:
  "whitespace_only s \<Longrightarrow> \<forall>b \<in> set s. b \<in> set ascii_space \<or> 0x80 \<le> (of_char b :: nat)"
proof (induction s rule: length_induct)
  case (1 s)
  show ?case
  proof (cases "s = []")
    case True
    then show ?thesis by simp
  next
    case False
    let ?w = "snd (DecodeRune s)"
    from False "1.prems" have sp: "IsSpace (fst (DecodeRune s))"
      and rest: "whitespace_only (drop ?w s)"
      by (simp_all add: whitespace_only_step)
    have "0 < ?w" using DecodeRune_size_pos [OF False] .
    then have "length (drop ?w s) < length s" using False by simp
    with 1 rest have ih: "\<forall>b \<in> set (drop ?w s). b \<in> set ascii_space \<or> 0x80 \<le> (of_char b :: nat)"
      by blast
    have hd: "\<forall>b \<in> set (take ?w s). b \<in> set ascii_space \<or> 0x80 \<le> (of_char b :: nat)"
      using DecodeRune_space_cases [OF False sp]
    proof (elim disjE conjE)
      assume a: "?w = 1" "(of_char (s ! 0) :: nat) < 0x80" "fst (DecodeRune s) = of_char (s ! 0)"
      then have "s ! 0 \<in> set ascii_space" using sp by (intro ascii_space_chars) simp_all
      moreover have "take ?w s = [s ! 0]" using a(1) False by (cases s) simp_all
      ultimately show ?thesis by simp
    next
      assume m: "\<forall>i < ?w. 0x80 \<le> (of_char (s ! i) :: nat)" "?w \<le> length s"
      show ?thesis
      proof
        fix b assume "b \<in> set (take ?w s)"
        then obtain i where "i < length (take ?w s)" "take ?w s ! i = b"
          by (auto simp: in_set_conv_nth)
        then have "i < ?w" "s ! i = b" by simp_all
        with m(1) show "b \<in> set ascii_space \<or> 0x80 \<le> (of_char b :: nat)" by auto
      qed
    qed
    have "set s = set (take ?w s) \<union> set (drop ?w s)"
      using set_append [of "take ?w s" "drop ?w s"] by simp
    with hd ih show ?thesis by auto
  qed
qed

lemma replace_none:
  "(\<forall>b \<in> set s. \<forall>p t. match_here re p (b # t) = None) \<Longrightarrow> replace_from re repl p 0 s = s"
  by (induction s arbitrary: p) auto

lemma coauthor_first: "b \<noteq> CHR ''C'' \<Longrightarrow> match_here coauthor_re p (b # t) = None"
  by (simp add: coauthor_re_def)

lemma footer_first: "b \<noteq> CHR ''-'' \<Longrightarrow> match_here footer_re p (b # t) = None"
  by (simp add: footer_re_def)

lemma not_space_byte:
  assumes "b \<in> set ascii_space \<or> 0x80 \<le> (of_char b :: nat)"
  shows "b \<noteq> CHR ''C'' \<and> b \<noteq> CHR ''-''"
proof (intro conjI notI)
  assume "b = CHR ''C''"
  with assms show False by (simp add: ascii_space_def)
next
  assume "b = CHR ''-''"
  with assms show False by (simp add: ascii_space_def)
qed

lemma FilterBody_whitespace_only:
  assumes "whitespace_only x"
  shows "FilterBody default_patterns x = []"
proof (cases "x = []")
  case True
  then show ?thesis by (simp add: FilterBody_def)
next
  case False
  have bytes: "b \<noteq> CHR ''C'' \<and> b \<noteq> CHR ''-''" if "b \<in> set x" for b
    using whitespace_only_bytes [OF assms] that by (intro not_space_byte) blast
  have r1: "ReplaceAllString coauthor_re x [] = x"
    unfolding ReplaceAllString_def
  proof (rule replace_none, intro ballI allI)
    fix b p t assume "b \<in> set x"
    with bytes show "match_here coauthor_re p (b # t) = None" by (intro coauthor_first) blast
  qed
  have r2: "ReplaceAllString footer_re x [] = x"
    unfolding ReplaceAllString_def
  proof (rule replace_none, intro ballI allI)
    fix b p t assume "b \<in> set x"
    with bytes show "match_here footer_re p (b # t) = None" by (intro footer_first) blast
  qed
  have "foldl (\<lambda>f pattern. ReplaceAllString pattern f []) x default_patterns = x"
    by (simp only: default_patterns_def foldl.simps r1 r2)
  moreover have "TrimSpace (ReplaceAllString multipleNewlines x [NL, NL]) = []"
    unfolding ReplaceAllString_def TrimSpace_def collapse_whitespace_only [OF assms]
    by (subst TrimRight.simps) simp
  ultimately show ?thesis
    using False by (simp only: FilterBody_def Let_def if_False)
qed

text \<open>
  Claim C8.  For every input and every rule set, the output of FilterBody
  holds no run of three or more newlines, and it neither starts nor ends with
  white space: its first and its last rune are not white space for
  \<open>unicode.IsSpace\<close>, so in particular its first and last byte are none of
  tab, newline, vertical tab, form feed, carriage return and space.  With the
  default rules, the output for a text of white space only is empty.
\<close>

theorem C8_no_newline_runs_and_trimmed:
  "\<not> has_newline_run3 (FilterBody ps x)
   \<and> (FilterBody ps x \<noteq> [] \<longrightarrow>
        \<not> IsSpace (fst (DecodeRune (FilterBody ps x)))
        \<and> \<not> IsSpace (fst (DecodeLastRune (FilterBody ps x)))
        \<and> hd (FilterBody ps x) \<notin> set ascii_space
        \<and> last (FilterBody ps x) \<notin> set ascii_space)
   \<and> (whitespace_only x \<longrightarrow> FilterBody default_patterns x = [])"
proof (intro conjI impI)
  show "\<not> has_newline_run3 (FilterBody ps x)" by (rule FilterBody_no_run3)
next
  assume ne: "FilterBody ps x \<noteq> []"
  with FilterBody_ends [of ps x]
  show a: "\<not> IsSpace (fst (DecodeRune (FilterBody ps x)))"
    and b: "\<not> IsSpace (fst (DecodeLastRune (FilterBody ps x)))" by simp_all
  from a ne show "hd (FilterBody ps x) \<notin> set ascii_space"
    by (blast dest: ascii_space_leading)
  from b ne show "last (FilterBody ps x) \<notin> set ascii_space"
    by (blast dest: ascii_space_trailing)
next
  assume "whitespace_only x"
  then show "FilterBody default_patterns x = []" by (rule FilterBody_whitespace_only)
qed

theorem C8_witness:
  "whitespace_only (''   '' @ [NL, NL] @ ''   '')
   \<and> FilterBody default_patterns (''   '' @ [NL, NL] @ ''   '') = []
   \<and> FilterBody default_patterns
       (''A'' @ [NL] @ ''Co-Authored-By: a'' @ [NL] @ ''Co-Authored-By: b'' @ [NL]
        @ ''Co-Authored-By: c'' @ [NL] @ ''B '')
     = ''A'' @ [NL, NL] @ ''B''
   \<and> \<not> has_newline_run3 (''A'' @ [NL, NL] @ ''B'')"
proof -
  have w: "whitespace_only (''   '' @ [NL, NL] @ ''   '')" by code_simp
  with C8_no_newline_runs_and_trimmed [of default_patterns "''   '' @ [NL, NL] @ ''   ''"]
  have e: "FilterBody default_patterns (''   '' @ [NL, NL] @ ''   '') = []" by blast
  have f: "FilterBody default_patterns
       (''A'' @ [NL] @ ''Co-Authored-By: a'' @ [NL] @ ''Co-Authored-By: b'' @ [NL]
        @ ''Co-Authored-By: c'' @ [NL] @ ''B '')
     = ''A'' @ [NL, NL] @ ''B''" by code_simp
  from C8_no_newline_runs_and_trimmed [of default_patterns
       "''A'' @ [NL] @ ''Co-Authored-By: a'' @ [NL] @ ''Co-Authored-By: b'' @ [NL]
        @ ''Co-Authored-By: c'' @ [NL] @ ''B ''"]
  have "\<not> has_newline_run3 (''A'' @ [NL, NL] @ ''B'')" unfolding f by blast
  with w e f show ?thesis by blast
qed


subsection \<open>A co-author trailer between two other trailers\<close>











end
